theory Spec2Isabelle
  imports Complex_Main "HOL-Library.Log_Nat"
begin

section \<open>Python numbers\<close>

text \<open>
  \<open>make_icons.py\<close> computes with Python integers (unbounded, modelled as \<open>int\<close>) and with
  Python floats. A float is an IEEE 754 binary64 number; the finite ones are rationals, so a
  float is modelled by the rational it denotes and every float operation is the exact
  operation followed by \<open>fl\<close>, rounding to the nearest number with a 53 bit significand, ties
  to even. Overflow to infinity and the subnormal range are left out: the quotients and
  products of \<open>make_square\<close> stay far from both for image dimensions and sizes below
  \<open>2^31\<close>. Python's \<open>OverflowError\<close> for an int too large for a float, and Pillow's for a
  size outside a C int, are therefore not in the model either: every statement about which
  calls return or raise carries bounds that keep the numbers in range.

  The exceptions that can leave \<open>make_square\<close> are Python's \<open>ZeroDivisionError\<close> (true
  division) and the \<open>ValueError\<close> that Pillow raises for an impossible size.
\<close>

datatype error = ZeroDivisionError | ValueError

type_synonym pyfloat = rat

definition binade :: "rat \<Rightarrow> int" where
  \<comment> \<open>the exponent \<open>e\<close> with \<open>2^e \<le> q < 2^(e+1)\<close>, for positive \<open>q\<close>\<close>
  "binade q =
     (let n = fst (quotient_of q); d = snd (quotient_of q); k = bitlen n - bitlen d
      in if 2 powi k \<le> q then k else k - 1)"

definition round_half_even :: "rat \<Rightarrow> int" where
  "round_half_even r =
     (let f = \<lfloor>r\<rfloor>; t = r - of_int f
      in if t < 1 / 2 then f
         else if 1 / 2 < t then f + 1
         else if even f then f else f + 1)"

definition fl_pos :: "rat \<Rightarrow> pyfloat" where
  "fl_pos q = of_int (round_half_even (q / 2 powi (binade q - 52))) * 2 powi (binade q - 52)"

definition fl :: "rat \<Rightarrow> pyfloat" where
  "fl q = (if q = 0 then 0 else if q < 0 then - fl_pos (- q) else fl_pos q)"

definition float_of_int :: "int \<Rightarrow> pyfloat" where
  \<comment> \<open>the conversion Python applies to an \<open>int\<close> operand that meets a float\<close>
  "float_of_int n = fl (of_int n)"

definition fdiv :: "int \<Rightarrow> int \<Rightarrow> pyfloat" where
  \<comment> \<open>\<open>a / b\<close> on two ints with \<open>b\<close> known to be nonzero: correctly rounded\<close>
  "fdiv a b = fl (of_int a / of_int b)"

definition truediv :: "int \<Rightarrow> int \<Rightarrow> error + pyfloat" where
  \<comment> \<open>\<open>a / b\<close> on two ints, for a quotient within the range of a float\<close>
  "truediv a b = (if b = 0 then Inl ZeroDivisionError else Inr (fdiv a b))"

definition truediv_if :: "int \<Rightarrow> pyfloat \<Rightarrow> error + pyfloat" where
  \<comment> \<open>\<open>a / x\<close>, an int by a float\<close>
  "truediv_if a x = (if x = 0 then Inl ZeroDivisionError else Inr (fl (float_of_int a / x)))"

definition mul_if :: "int \<Rightarrow> pyfloat \<Rightarrow> pyfloat" where
  \<comment> \<open>\<open>a * x\<close>, an int by a float\<close>
  "mul_if a x = fl (float_of_int a * x)"

definition sub_ff :: "pyfloat \<Rightarrow> pyfloat \<Rightarrow> pyfloat" where
  "sub_ff x y = fl (x - y)"

definition py_int :: "pyfloat \<Rightarrow> int" where
  \<comment> \<open>\<open>int(x)\<close> truncates toward zero\<close>
  "py_int x = (if 0 \<le> x then \<lfloor>x\<rfloor> else \<lceil>x\<rceil>)"

section \<open>Images and the Pillow operations that make_square calls\<close>

text \<open>
  A Pillow image has a mode (a string such as \<open>RGBA\<close>), a width, a height and a pixel buffer,
  here the list of its rows from the top, each row the list of its pixels from the left, a
  pixel being the list of its band values. The image is well formed when both dimensions are
  at least one and the buffer has that shape.
\<close>

type_synonym pixel = "int list"

record image =
  imode :: string
  width :: int
  height :: int
  rows :: "pixel list list"

definition wf_image :: "image \<Rightarrow> bool" where
  "wf_image im \<longleftrightarrow>
     1 \<le> width im \<and> 1 \<le> height im \<and> length (rows im) = nat (height im) \<and>
     list_all (\<lambda>r. length r = nat (width im)) (rows im)"

definition pil_sized :: "image \<Rightarrow> bool" where
  \<comment> \<open>Pillow keeps the dimensions in C ints\<close>
  "pil_sized im \<longleftrightarrow> width im < 2 ^ 31 \<and> height im < 2 ^ 31"

definition getpixel :: "image \<Rightarrow> int \<Rightarrow> int \<Rightarrow> pixel" where
  \<comment> \<open>the pixel in column \<open>x\<close> of row \<open>y\<close>; only used inside the image\<close>
  "getpixel im x y = rows im ! nat y ! nat x"

definition raster :: "int \<Rightarrow> int \<Rightarrow> (int \<Rightarrow> int \<Rightarrow> pixel) \<Rightarrow> pixel list list" where
  \<comment> \<open>a fresh \<open>w\<close> by \<open>h\<close> buffer filled from \<open>f column row\<close>\<close>
  "raster w h f = map (\<lambda>j. map (\<lambda>i. f (int i) (int j)) [0..<nat w]) [0..<nat h]"

text \<open>
  \<open>make_square\<close> is made of calls into Pillow: \<open>convert\<close>, \<open>thumbnail\<close>, \<open>Image.new\<close>,
  \<open>paste\<close>, \<open>resize\<close> and \<open>crop\<close>. Each is modelled below after Pillow's \<open>Image.py\<close>: what it
  does to modes, sizes, offsets and the area outside an image, and when it raises. The pixel
  values that Pillow's C routines compute for a mode conversion and for Lanczos resampling
  are not modelled; they are the two fields of \<open>pil_core\<close>, which the operations take as
  their first argument, and the claims hold for every \<open>pil_core\<close>. Limits of memory are left
  out.
\<close>

record pil_core =
  convert_px :: "image \<Rightarrow> string \<Rightarrow> int \<Rightarrow> int \<Rightarrow> pixel"
  resample_px :: "image \<Rightarrow> int \<times> int \<Rightarrow> int \<Rightarrow> int \<Rightarrow> pixel"

definition convert :: "pil_core \<Rightarrow> image \<Rightarrow> string \<Rightarrow> image" where
  \<comment> \<open>\<open>img.convert(m)\<close>: a copy when the mode is already \<open>m\<close>, else a converted image of the same size\<close>
  "convert P im m =
     (if m = imode im then im
      else \<lparr>imode = m, width = width im, height = height im,
            rows = raster (width im) (height im) (convert_px P im m)\<rparr>)"

definition resize :: "pil_core \<Rightarrow> image \<Rightarrow> int \<times> int \<Rightarrow> error + image" where
  \<comment> \<open>\<open>img.resize(sz, LANCZOS)\<close>: a copy when the size is unchanged; a size below one is refused\<close>
  "resize P im sz =
     (if (width im, height im) = sz then Inr im
      else if fst sz < 1 \<or> snd sz < 1 then Inl ValueError
      else Inr \<lparr>imode = imode im, width = fst sz, height = snd sz,
                rows = raster (fst sz) (snd sz) (resample_px P im sz)\<rparr>)"

definition round_aspect :: "pyfloat \<Rightarrow> (int \<Rightarrow> pyfloat) \<Rightarrow> int" where
  \<comment> \<open>\<open>max(min(math.floor(number), math.ceil(number), key=key), 1)\<close>\<close>
  "round_aspect number key =
     max (if key \<lceil>number\<rceil> < key \<lfloor>number\<rfloor> then \<lceil>number\<rceil> else \<lfloor>number\<rfloor>) 1"

definition preserve_aspect_ratio :: "image \<Rightarrow> int \<times> int \<Rightarrow> error + (int \<times> int) option" where
  \<comment> \<open>the size \<open>thumbnail\<close> scales to; \<open>None\<close> when the image already fits\<close>
  "preserve_aspect_ratio im sz =
     (let x = fst sz; y = snd sz
      in if width im \<le> x \<and> height im \<le> y then Inr None
         else case truediv (width im) (height im) of
           Inl e \<Rightarrow> Inl e
         | Inr aspect \<Rightarrow>
             (case truediv x y of
                Inl e \<Rightarrow> Inl e
              | Inr q \<Rightarrow>
                  if aspect \<le> q
                  then Inr (Some (round_aspect (mul_if y aspect)
                                   (\<lambda>n. \<bar>sub_ff aspect (fdiv n y)\<bar>), y))
                  else (case truediv_if x aspect of
                          Inl e \<Rightarrow> Inl e
                        | Inr t \<Rightarrow>
                            Inr (Some (x, round_aspect t
                                   (\<lambda>n. if n = 0 then 0 else \<bar>sub_ff aspect (fdiv x n)\<bar>))))))"

definition thumbnail :: "pil_core \<Rightarrow> image \<Rightarrow> int \<times> int \<Rightarrow> error + image" where
  \<comment> \<open>\<open>img.thumbnail(sz, LANCZOS)\<close> changes the image in place; this is the image afterwards.
      An image that already fits is left as it is: thumbnail never enlarges.\<close>
  "thumbnail P im sz =
     (case preserve_aspect_ratio im sz of
        Inl e \<Rightarrow> Inl e
      | Inr None \<Rightarrow> Inr im
      | Inr (Some fs) \<Rightarrow> (if (width im, height im) \<noteq> fs then resize P im fs else Inr im))"

definition Image_new :: "string \<Rightarrow> int \<times> int \<Rightarrow> pixel \<Rightarrow> error + image" where
  \<comment> \<open>\<open>Image.new(m, sz, color)\<close>, for a size within the range of a C int\<close>
  "Image_new m sz color =
     (if fst sz < 0 \<or> snd sz < 0 then Inl ValueError
      else Inr \<lparr>imode = m, width = fst sz, height = snd sz,
                rows = raster (fst sz) (snd sz) (\<lambda>i j. color)\<rparr>)"

definition paste :: "image \<Rightarrow> image \<Rightarrow> int \<times> int \<Rightarrow> image" where
  \<comment> \<open>\<open>dst.paste(src, (x, y))\<close> without a mask overwrites the box, clipped to \<open>dst\<close>;
      this is \<open>dst\<close> afterwards\<close>
  "paste dst src box =
     dst\<lparr>rows := raster (width dst) (height dst)
       (\<lambda>i j. if fst box \<le> i \<and> i < fst box + width src \<and> snd box \<le> j \<and> j < snd box + height src
               then getpixel src (i - fst box) (j - snd box)
               else getpixel dst i j)\<rparr>"

definition crop :: "image \<Rightarrow> int \<times> int \<times> int \<times> int \<Rightarrow> error + image" where
  \<comment> \<open>\<open>img.crop((left, upper, right, lower))\<close> of an RGBA image: a new image of the size of
      the box; what lies outside the image is filled with zeros, which is transparent black\<close>
  "crop im box =
     (case box of (left, upper, right, lower) \<Rightarrow>
        if right < left \<or> lower < upper then Inl ValueError
        else Inr \<lparr>imode = imode im, width = right - left, height = lower - upper,
                  rows = raster (right - left) (lower - upper)
                    (\<lambda>i j. if 0 \<le> i + left \<and> i + left < width im \<and>
                               0 \<le> j + upper \<and> j + upper < height im
                            then getpixel im (i + left) (j + upper)
                            else [0, 0, 0, 0])\<rparr>)"

section \<open>make_square\<close>

text \<open>
  Images are objects: the argument of \<open>make_square\<close> and its result are references into a
  store, the list of the objects allocated so far. An allocation appends to the store;
  \<open>thumbnail\<close> and \<open>paste\<close> update the object they are called on. The function returns its
  outcome, a reference or the exception raised, together with the store it leaves behind.
\<close>

type_synonym ref = nat
type_synonym heap = "image list"

definition alloc :: "heap \<Rightarrow> image \<Rightarrow> ref \<times> heap" where
  "alloc h im = (length h, h @ [im])"

definition make_square :: "pil_core \<Rightarrow> ref \<Rightarrow> int \<Rightarrow> string \<Rightarrow> heap \<Rightarrow> (error + ref) \<times> heap" where
  "make_square P img sz mode h =
     (let mode = (if mode \<notin> {''contain'', ''cover''} then ''contain'' else mode)
      in if mode = ''contain'' then
           (let (img1, h1) = alloc h (convert P (h ! img) ''RGBA'')
            in case thumbnail P (h1 ! img1) (sz, sz) of
                 Inl e \<Rightarrow> (Inl e, h1)
               | Inr t \<Rightarrow>
                   (let h2 = h1[img1 := t]
                    in case Image_new ''RGBA'' (sz, sz) [0, 0, 0, 0] of
                         Inl e \<Rightarrow> (Inl e, h2)
                       | Inr c \<Rightarrow>
                           (let (canvas, h3) = alloc h2 c;
                                x = (sz - width (h3 ! img1)) div 2;
                                y = (sz - height (h3 ! img1)) div 2;
                                h4 = h3[canvas := paste (h3 ! canvas) (h3 ! img1) (x, y)]
                            in (Inr canvas, h4))))
         else
           (let (img1, h1) = alloc h (convert P (h ! img) ''RGBA'');
                w = width (h1 ! img1);
                h0 = height (h1 ! img1)
            in case truediv sz w of
                 Inl e \<Rightarrow> (Inl e, h1)
               | Inr sw \<Rightarrow>
                   (case truediv sz h0 of
                      Inl e \<Rightarrow> (Inl e, h1)
                    | Inr sh \<Rightarrow>
                        (let scale = max sw sh;
                             nw = py_int (mul_if w scale);
                             nh = py_int (mul_if h0 scale)
                         in case resize P (h1 ! img1) (nw, nh) of
                              Inl e \<Rightarrow> (Inl e, h1)
                            | Inr r \<Rightarrow>
                                (let (img2, h2) = alloc h1 r;
                                     left = (nw - sz) div 2;
                                     top = (nh - sz) div 2
                                 in case crop (h2 ! img2) (left, top, left + sz, top + sz) of
                                      Inl e \<Rightarrow> (Inl e, h2)
                                    | Inr c \<Rightarrow>
                                        (let (res, h3) = alloc h2 c in (Inr res, h3)))))))"

definition result :: "(error + ref) \<times> heap \<Rightarrow> error + image" where
  \<comment> \<open>what the caller gets: the exception, or the image the returned reference points to\<close>
  "result out = (case fst out of Inl e \<Rightarrow> Inl e | Inr r \<Rightarrow> Inr (snd out ! r))"

definition box_core :: pil_core where
  \<comment> \<open>one instance of the two pixel routines, to run the model on concrete images: the
      conversion appends an opaque alpha band, the resampling takes the nearest pixel\<close>
  "box_core =
     \<lparr>convert_px = (\<lambda>im m x y. getpixel im x y @ [255]),
      resample_px = (\<lambda>im sz x y. getpixel im (x * width im div fst sz) (y * height im div snd sz))\<rparr>"

definition flat :: "string \<Rightarrow> int \<Rightarrow> int \<Rightarrow> pixel \<Rightarrow> image" where
  \<comment> \<open>the \<open>w\<close> by \<open>h\<close> image of one colour\<close>
  "flat m w h c = \<lparr>imode = m, width = w, height = h, rows = replicate (nat h) (replicate (nat w) c)\<rparr>"

section \<open>Rounding to binary64\<close>

lemma bitlen_powi_bounds:
  fixes n :: int
  assumes "0 < n"
  shows "(2::rat) powi (bitlen n - 1) \<le> of_int n" and "(of_int n :: rat) < 2 powi (bitlen n)"
proof -
  from bitlen_bounds[OF assms] have lo: "2 ^ nat (bitlen n - 1) \<le> n" and hi: "n < 2 ^ nat (bitlen n)"
    by auto
  have b1: "1 \<le> bitlen n" using assms by (auto simp: bitlen_alt_def)
  have "(of_int (2 ^ nat (bitlen n - 1)) :: rat) \<le> of_int n" using lo by (rule of_int_le_iff[THEN iffD2])
  then show "(2::rat) powi (bitlen n - 1) \<le> of_int n" using b1 by (simp add: power_int_def)
  have "(of_int n :: rat) < of_int (2 ^ nat (bitlen n))" using hi by (rule of_int_less_iff[THEN iffD2])
  then show "(of_int n :: rat) < 2 powi (bitlen n)" using b1 by (simp add: power_int_def)
qed

lemma binade_bounds:
  assumes "0 < q"
  shows "2 powi (binade q) \<le> q" and "q < 2 powi (binade q + 1)"
proof -
  obtain n d where nd: "quotient_of q = (n, d)" by (cases "quotient_of q")
  then have d: "0 < d" and q: "q = of_int n / of_int d"
    by (simp_all add: quotient_of_denom_pos quotient_of_div)
  have n: "0 < n" using assms d q by (simp add: zero_less_divide_iff)
  define k where "k = bitlen n - bitlen d"
  have bd: "binade q = (if 2 powi k \<le> q then k else k - 1)"
    by (simp add: binade_def nd k_def Let_def)
  have dpos: "(0::rat) < of_int d" using d by simp
  have lo: "(2::rat) powi (k - 1) \<le> q"
  proof -
    have "(2::rat) powi (k - 1) * of_int d \<le> 2 powi (k - 1) * 2 powi (bitlen d)"
      using bitlen_powi_bounds(2)[OF d] by (intro mult_left_mono) simp_all
    also have "\<dots> = 2 powi (bitlen n - 1)" by (simp add: k_def power_int_add[symmetric])
    also have "\<dots> \<le> of_int n" by (rule bitlen_powi_bounds(1)[OF n])
    finally show ?thesis using dpos by (simp add: q pos_le_divide_eq)
  qed
  have hi: "q < (2::rat) powi (k + 1)"
  proof -
    have "(of_int n :: rat) < 2 powi (bitlen n)" by (rule bitlen_powi_bounds(2)[OF n])
    also have "\<dots> = 2 powi (k + 1) * 2 powi (bitlen d - 1)" by (simp add: k_def power_int_add[symmetric])
    also have "\<dots> \<le> 2 powi (k + 1) * of_int d"
      using bitlen_powi_bounds(1)[OF d] by (intro mult_left_mono) simp_all
    finally show ?thesis using dpos by (simp add: q pos_divide_less_eq)
  qed
  show "2 powi (binade q) \<le> q" using lo by (simp add: bd)
  show "q < 2 powi (binade q + 1)" using hi by (auto simp add: bd not_le)
qed

lemma round_half_even_bounds:
  "of_int (round_half_even r) \<le> r + 1 / 2" "r - 1 / 2 \<le> of_int (round_half_even r)"
proof -
  define m where "m = \<lfloor>r\<rfloor>"
  have f: "of_int m \<le> r" "r < of_int m + 1" unfolding m_def by linarith+
  have e: "round_half_even r =
     (if r - of_int m < 1 / 2 then m else if 1 / 2 < r - of_int m then m + 1
      else if even m then m else m + 1)"
    by (simp add: round_half_even_def Let_def m_def)
  show "of_int (round_half_even r) \<le> r + 1 / 2" using f unfolding e
    by (auto split: if_splits)
  show "r - 1 / 2 \<le> of_int (round_half_even r)" using f unfolding e
    by (auto split: if_splits)
qed

lemma round_half_even_le_int:
  assumes "r \<le> of_int m" shows "round_half_even r \<le> m"
proof -
  have "\<lfloor>r\<rfloor> \<le> m" using assms by (simp add: floor_le_iff) 
  show ?thesis
  proof (cases "\<lfloor>r\<rfloor> = m")
    case True
    then have "r - of_int \<lfloor>r\<rfloor> \<le> 0" using assms by simp
    then show ?thesis using True by (simp add: round_half_even_def Let_def)
  next
    case False
    then have "\<lfloor>r\<rfloor> + 1 \<le> m" using \<open>\<lfloor>r\<rfloor> \<le> m\<close> by simp
    then show ?thesis by (simp add: round_half_even_def Let_def)
  qed
qed

lemma round_half_even_of_int [simp]: "round_half_even (of_int m) = m"
  by (simp add: round_half_even_def)


lemma fl_pos_lower:
  assumes "0 < q"
  shows "q * (1 - 1 / 2 ^ 53) \<le> fl_pos q"
proof -
  define u where "u = (2::rat) powi (binade q - 52)"
  have u: "0 < u" by (simp add: u_def)
  have "u = 2 powi (binade q) / 2 ^ 52"
    by (simp add: u_def power_int_diff)
  also have "\<dots> \<le> q / 2 ^ 52"
    using binade_bounds(1)[OF assms] by (simp add: divide_right_mono)
  finally have ule: "u \<le> q / 2 ^ 52" .
  define R :: rat where "R = of_int (round_half_even (q / u))"
  have "q / u - 1 / 2 \<le> R"
    unfolding R_def by (rule round_half_even_bounds(2))
  then have "(q / u - 1 / 2) * u \<le> R * u"
    using u by (simp only: mult_le_cancel_right_pos)
  moreover have "(q / u - 1 / 2) * u = q - u / 2"
    using u by (simp add: field_simps)
  moreover have "fl_pos q = R * u"
    by (simp add: fl_pos_def u_def R_def)
  ultimately have "q - u / 2 \<le> fl_pos q" by simp
  moreover have "q * (1 - 1 / 2 ^ 53) \<le> q - u / 2"
    using ule by (simp add: field_simps)
  ultimately show ?thesis by linarith
qed

lemma binade_le_52:
  assumes "0 < q" "q < 2 ^ 53"
  shows "binade q \<le> 52"
proof (rule ccontr)
  assume "\<not> binade q \<le> 52"
  then have "53 \<le> binade q" by simp
  then have "(2::rat) powi 53 \<le> 2 powi (binade q)"
    by (intro power_int_increasing) simp_all
  also have "\<dots> \<le> q" by (rule binade_bounds(1)[OF assms(1)])
  finally show False using assms(2) by simp
qed

lemma ulp_inverse:
  assumes "e \<le> 52"
  shows "(2::rat) powi (e - 52) * of_int (2 ^ nat (52 - e)) = 1"
proof -
  have "(of_int (2 ^ nat (52 - e)) :: rat) = 2 powi (52 - e)"
    using assms by (simp add: power_int_def)
  then show ?thesis by (simp add: power_int_add[symmetric])
qed

lemma fl_pos_le_int:
  assumes "0 < q" "q \<le> of_int N" "N < 2 ^ 53"
  shows "fl_pos q \<le> of_int N"
proof -
  define u where "u = (2::rat) powi (binade q - 52)"
  define M where "M = N * 2 ^ nat (52 - binade q)"
  have u: "0 < u" by (simp add: u_def)
  have "q < 2 ^ 53"
  proof -
    have "(of_int N :: rat) < of_int (2 ^ 53)" using assms(3) by (simp only: of_int_less_iff)
    then show ?thesis using assms(2) by simp
  qed
  then have e: "binade q \<le> 52" using assms(1) by (rule binade_le_52[rotated])
  have inv: "u * of_int (2 ^ nat (52 - binade q)) = 1"
    unfolding u_def by (rule ulp_inverse[OF e])
  have MN: "of_int M * u = of_int N"
    using inv by (simp add: M_def mult.assoc mult.commute[of _ u])
  have "q / u \<le> of_int N / u" using assms(2) u by (simp add: divide_right_mono)
  also have "of_int N / u = of_int M" using MN u by (simp add: field_simps)
  finally have "round_half_even (q / u) \<le> M" by (rule round_half_even_le_int)
  then have "(of_int (round_half_even (q / u)) :: rat) \<le> of_int M" by (simp only: of_int_le_iff)
  then have "of_int (round_half_even (q / u)) * u \<le> of_int M * u"
    using u by (simp only: mult_le_cancel_right_pos)
  then show ?thesis by (simp add: fl_pos_def u_def[symmetric] MN)
qed

lemma fl_pos_of_int:
  assumes "0 < n" "n < 2 ^ 53"
  shows "fl_pos (of_int n) = of_int n"
proof -
  define q :: rat where "q = of_int n"
  define u where "u = (2::rat) powi (binade q - 52)"
  define M where "M = n * 2 ^ nat (52 - binade q)"
  have q: "0 < q" using assms(1) by (simp add: q_def)
  have u: "0 < u" by (simp add: u_def)
  have "(of_int n :: rat) < of_int (2 ^ 53)" using assms(2) by (simp only: of_int_less_iff)
  then have "q < 2 ^ 53" by (simp add: q_def)
  then have e: "binade q \<le> 52" using q by (rule binade_le_52[rotated])
  have inv: "u * of_int (2 ^ nat (52 - binade q)) = 1"
    unfolding u_def by (rule ulp_inverse[OF e])
  have MN: "of_int M * u = q"
    using inv by (simp add: M_def q_def mult.assoc mult.commute[of _ u])
  have "q / u = of_int M" using MN u by (simp add: field_simps)
  then have "fl_pos q = of_int M * u"
    by (simp add: fl_pos_def u_def[symmetric] del: of_int_mult of_int_power)
  then show ?thesis using MN by (simp add: q_def)
qed




lemma fl_lower: "0 < q \<Longrightarrow> q * (1 - 1 / 2 ^ 53) \<le> fl q"
  using fl_pos_lower[of q] by (simp add: fl_def)

lemma fl_pos_gt0: "0 < q \<Longrightarrow> 0 < fl q"
proof -
  assume q: "0 < q"
  have "0 < q * (1 - 1 / 2 ^ 53)" using q by simp
  then show ?thesis using fl_lower[OF q] by linarith
qed

lemma fl_le_int: "0 < q \<Longrightarrow> q \<le> of_int N \<Longrightarrow> N < 2 ^ 53 \<Longrightarrow> fl q \<le> of_int N"
  using fl_pos_le_int[of q N] by (simp add: fl_def)

lemma float_of_int_exact: "0 \<le> n \<Longrightarrow> n < 2 ^ 53 \<Longrightarrow> float_of_int n = of_int n"
  using fl_pos_of_int[of n] by (cases "n = 0") (simp_all add: float_of_int_def fl_def)

lemma fl_one: "fl 1 = 1"
  using float_of_int_exact[of 1] by (simp add: float_of_int_def)

text \<open>
  Three values to compare with Python, where \<open>(1/49).as_integer_ratio()\<close>,
  \<open>(49 * (1/49)).as_integer_ratio()\<close> and \<open>(49 * (16/49)).as_integer_ratio()\<close> print the same
  fractions: the product \<open>49 * (1/49)\<close> is below 1 and \<open>49 * (16/49)\<close> is below 16.
\<close>

lemma binary64_examples:
  "fdiv 1 49 = 5882252574524729 / 288230376151711744"
  "mul_if 49 (fdiv 1 49) = 9007199254740991 / 9007199254740992"
  "mul_if 49 (fdiv 16 49) = 9007199254740991 / 562949953421312"
  by code_simp+

section \<open>Shapes of the images the operations build\<close>

lemma raster_length: "length (raster w h f) = nat h"
  by (simp add: raster_def)

lemma raster_rows: "list_all (\<lambda>r. length r = nat w) (raster w h f)"
  by (simp add: raster_def list_all_iff)

lemma raster_nth:
  "0 \<le> i \<Longrightarrow> i < w \<Longrightarrow> 0 \<le> j \<Longrightarrow> j < h \<Longrightarrow> raster w h f ! nat j ! nat i = f i j"
  by (simp add: raster_def)

lemma raster_getpixel:
  assumes "length (rows im) = nat h" "list_all (\<lambda>r. length r = nat w) (rows im)"
  shows "raster w h (\<lambda>i j. if 0 \<le> i \<and> i < w \<and> 0 \<le> j \<and> j < h then getpixel im i j else d i j) = rows im"
proof (rule nth_equalityI)
  show "length (raster w h (\<lambda>i j. if 0 \<le> i \<and> i < w \<and> 0 \<le> j \<and> j < h then getpixel im i j else d i j)) = length (rows im)"
    using assms(1) by (simp add: raster_length)
next
  fix j assume "j < length (raster w h (\<lambda>i j. if 0 \<le> i \<and> i < w \<and> 0 \<le> j \<and> j < h then getpixel im i j else d i j))"
  then have j: "j < nat h" by (simp add: raster_length)
  then have len: "length (rows im ! j) = nat w"
    using assms by (simp add: list_all_length)
  show "raster w h (\<lambda>i j. if 0 \<le> i \<and> i < w \<and> 0 \<le> j \<and> j < h then getpixel im i j else d i j) ! j = rows im ! j"
  proof (rule nth_equalityI)
    show "length (raster w h (\<lambda>i j. if 0 \<le> i \<and> i < w \<and> 0 \<le> j \<and> j < h then getpixel im i j else d i j) ! j) = length (rows im ! j)"
      using j len by (simp add: raster_def)
  next
    fix i assume "i < length (raster w h (\<lambda>i j. if 0 \<le> i \<and> i < w \<and> 0 \<le> j \<and> j < h then getpixel im i j else d i j) ! j)"
    then have i: "i < nat w" using j by (simp add: raster_def)
    show "raster w h (\<lambda>i j. if 0 \<le> i \<and> i < w \<and> 0 \<le> j \<and> j < h then getpixel im i j else d i j) ! j ! i = rows im ! j ! i"
    proof -
      have "int i < w" "int j < h" using i j by linarith+
      then show ?thesis using i j by (simp add: raster_def getpixel_def)
    qed
  qed
qed

lemma wf_imageI:
  "1 \<le> width im \<Longrightarrow> 1 \<le> height im \<Longrightarrow> rows im = raster (width im) (height im) f \<Longrightarrow> wf_image im"
  by (simp add: wf_image_def raster_length raster_rows)

lemma convert_props:
  "imode (convert P im ''RGBA'') = ''RGBA''"
  "width (convert P im ''RGBA'') = width im"
  "height (convert P im ''RGBA'') = height im"
  by (simp_all add: convert_def)

lemma convert_wf: "wf_image im \<Longrightarrow> wf_image (convert P im ''RGBA'')"
  by (simp add: convert_def wf_image_def raster_length raster_rows)

lemma resize_props:
  assumes "resize P im s = Inr r"
  shows "imode r = imode im" "width r = fst s" "height r = snd s"
  using assms by (auto simp add: resize_def split: if_splits)

lemma resize_wf:
  assumes "resize P im s = Inr r" "wf_image im"
  shows "wf_image r"
  using assms by (auto simp add: resize_def wf_image_def raster_length raster_rows split: if_splits)

lemma resize_ok:
  "1 \<le> fst s \<Longrightarrow> 1 \<le> snd s \<Longrightarrow> \<exists>r. resize P im s = Inr r"
  by (simp add: resize_def)

lemma resize_error: "resize P im s = Inl e \<Longrightarrow> e = ValueError"
  by (simp add: resize_def split: if_splits)

lemma preserve_aspect_ratio_valid:
  assumes "1 \<le> width im" "1 \<le> height im" "1 \<le> sz"
  shows "preserve_aspect_ratio im (sz, sz) = Inr None \<and> width im \<le> sz \<and> height im \<le> sz \<or>
         (\<exists>x y. preserve_aspect_ratio im (sz, sz) = Inr (Some (x, y)) \<and> 1 \<le> x \<and> 1 \<le> y \<and>
                (x = sz \<or> y = sz) \<and> \<not> (width im \<le> sz \<and> height im \<le> sz))"
proof (cases "width im \<le> sz \<and> height im \<le> sz")
  case True
  then show ?thesis by (simp add: preserve_aspect_ratio_def)
next
  case False
  have q: "fdiv sz sz = 1" using assms(3) by (simp add: fdiv_def fl_one)
  show ?thesis
  proof (cases "fdiv (width im) (height im) \<le> 1")
    case True
    then show ?thesis using False assms q
      by (simp add: preserve_aspect_ratio_def truediv_def round_aspect_def)
  next
    case a: False
    then have "fdiv (width im) (height im) \<noteq> 0" by auto
    then show ?thesis using False assms q a
      by (simp add: preserve_aspect_ratio_def truediv_def truediv_if_def round_aspect_def)
  qed
qed

lemma thumbnail_fits:
  "width im \<le> sz \<Longrightarrow> height im \<le> sz \<Longrightarrow> thumbnail P im (sz, sz) = Inr im"
  by (simp add: thumbnail_def preserve_aspect_ratio_def)

lemma thumbnail_valid:
  assumes "wf_image im" "1 \<le> sz"
  shows "\<exists>t. thumbnail P im (sz, sz) = Inr t \<and> imode t = imode im \<and> wf_image t"
proof -
  have d: "1 \<le> width im" "1 \<le> height im" using assms(1) by (simp_all add: wf_image_def)
  consider "preserve_aspect_ratio im (sz, sz) = Inr None"
    | x y where "preserve_aspect_ratio im (sz, sz) = Inr (Some (x, y))" "1 \<le> x" "1 \<le> y"
    using preserve_aspect_ratio_valid[OF d assms(2)] by blast
  then show ?thesis
  proof cases
    case 1
    then show ?thesis using assms(1) by (simp add: thumbnail_def)
  next
    case (2 x y)
    from resize_ok[of "(x, y)" P im] 2 obtain r where r: "resize P im (x, y) = Inr r" by auto
    from resize_props[OF r] resize_wf[OF r assms(1)] show ?thesis
      using 2 r assms(1) by (simp add: thumbnail_def)
  qed
qed

section \<open>make_square, branch by branch\<close>

lemma make_square_contain:
  "mode \<noteq> ''cover'' \<Longrightarrow> make_square P img sz mode h =
     (case thumbnail P (convert P (h ! img) ''RGBA'') (sz, sz) of
        Inl e \<Rightarrow> (Inl e, h @ [convert P (h ! img) ''RGBA''])
      | Inr t \<Rightarrow>
          (case Image_new ''RGBA'' (sz, sz) [0, 0, 0, 0] of
             Inl e \<Rightarrow> (Inl e, h @ [t])
           | Inr c \<Rightarrow>
               (Inr (Suc (length h)),
                h @ [t, paste c t ((sz - width t) div 2, (sz - height t) div 2)])))"
  apply (simp add: make_square_def alloc_def Let_def nth_append)
  apply (simp add: alloc_def Let_def nth_append list_update_append split: sum.split)
  done

lemma make_square_cover:
  "make_square P img sz ''cover'' h =
     (let c0 = convert P (h ! img) ''RGBA'' in
      case truediv sz (width c0) of
        Inl e \<Rightarrow> (Inl e, h @ [c0])
      | Inr sw \<Rightarrow>
          (case truediv sz (height c0) of
             Inl e \<Rightarrow> (Inl e, h @ [c0])
           | Inr sh \<Rightarrow>
               (let nw = py_int (mul_if (width c0) (max sw sh));
                    nh = py_int (mul_if (height c0) (max sw sh))
                in case resize P c0 (nw, nh) of
                     Inl e \<Rightarrow> (Inl e, h @ [c0])
                   | Inr r \<Rightarrow>
                       (case crop r ((nw - sz) div 2, (nh - sz) div 2,
                                     (nw - sz) div 2 + sz, (nh - sz) div 2 + sz) of
                          Inl e \<Rightarrow> (Inl e, h @ [c0, r])
                        | Inr c \<Rightarrow> (Inr (Suc (Suc (length h))), h @ [c0, r, c])))))"
  apply (simp add: make_square_def alloc_def Let_def nth_append)
  apply (simp add: alloc_def Let_def nth_append split: sum.split)
  done

lemma make_square_frame:
  "\<exists>ys. snd (make_square P img sz mode h) = h @ ys"
  by (cases "mode = ''cover''")
     (simp_all add: make_square_contain make_square_cover Let_def split: sum.split)

lemma make_square_fresh:
  "fst (make_square P img sz mode h) = Inr r \<Longrightarrow>
   length h \<le> r \<and> r < length (snd (make_square P img sz mode h))"
  by (cases "mode = ''cover''")
     (auto simp add: make_square_contain make_square_cover Let_def split: sum.splits)

lemma make_square_reads_img:
  "g ! img = h ! img \<Longrightarrow>
   result (make_square P img sz mode g) = result (make_square P img sz mode h)"
  by (cases "mode = ''cover''")
     (simp_all add: result_def make_square_contain make_square_cover Let_def nth_append
        split: sum.split)

section \<open>What the two branches return\<close>

lemma paste_props:
  "imode (paste d s b) = imode d" "width (paste d s b) = width d" "height (paste d s b) = height d"
  by (simp_all add: paste_def)

lemma paste_wf: "1 \<le> width d \<Longrightarrow> 1 \<le> height d \<Longrightarrow> wf_image (paste d s b)"
  by (simp add: paste_def wf_image_def raster_length raster_rows)

lemma Image_new_ok:
  "0 \<le> sz \<Longrightarrow> Image_new m (sz, sz) c =
     Inr \<lparr>imode = m, width = sz, height = sz, rows = raster sz sz (\<lambda>i j. c)\<rparr>"
  by (simp add: Image_new_def)

lemma contain_result:
  assumes "wf_image (h ! img)" "1 \<le> sz" "mode \<noteq> ''cover''"
  shows "\<exists>t. thumbnail P (convert P (h ! img) ''RGBA'') (sz, sz) = Inr t \<and> wf_image t \<and>
           imode t = ''RGBA'' \<and>
           make_square P img sz mode h =
             (Inr (Suc (length h)),
              h @ [t, paste \<lparr>imode = ''RGBA'', width = sz, height = sz,
                               rows = raster sz sz (\<lambda>i j. [0, 0, 0, 0])\<rparr> t
                        ((sz - width t) div 2, (sz - height t) div 2)])"
proof -
  from thumbnail_valid[OF convert_wf[OF assms(1)] assms(2), of P P]
  obtain t where t: "thumbnail P (convert P (h ! img) ''RGBA'') (sz, sz) = Inr t"
    and m: "imode t = imode (convert P (h ! img) ''RGBA'')" and wf: "wf_image t" by blast
  have "make_square P img sz mode h =
             (Inr (Suc (length h)),
              h @ [t, paste \<lparr>imode = ''RGBA'', width = sz, height = sz,
                               rows = raster sz sz (\<lambda>i j. [0, 0, 0, 0])\<rparr> t
                        ((sz - width t) div 2, (sz - height t) div 2)])"
    using assms(2) by (simp add: make_square_contain[OF assms(3)] t Image_new_ok)
  then show ?thesis using t m wf by (simp add: convert_props)
qed

lemma crop_square_props:
  assumes "0 \<le> sz"
  shows "\<exists>c. crop im (l, t, l + sz, t + sz) = Inr c \<and> imode c = imode im \<and>
           width c = sz \<and> height c = sz \<and>
           rows c = raster sz sz
            (\<lambda>i j. if 0 \<le> i + l \<and> i + l < width im \<and> 0 \<le> j + t \<and> j + t < height im
                    then getpixel im (i + l) (j + t) else [0, 0, 0, 0])"
  using assms by (simp add: crop_def)

lemma cover_result:
  assumes "width (h ! img) \<noteq> 0" "height (h ! img) \<noteq> 0"
    and "c0 = convert P (h ! img) ''RGBA''"
    and "scale = max (fdiv sz (width c0)) (fdiv sz (height c0))"
    and "nw = py_int (mul_if (width c0) scale)"
    and "nh = py_int (mul_if (height c0) scale)"
  shows "make_square P img sz ''cover'' h =
       (case resize P c0 (nw, nh) of
             Inl e \<Rightarrow> (Inl e, h @ [c0])
           | Inr r \<Rightarrow>
               (case crop r ((nw - sz) div 2, (nh - sz) div 2,
                             (nw - sz) div 2 + sz, (nh - sz) div 2 + sz) of
                  Inl e \<Rightarrow> (Inl e, h @ [c0, r])
                | Inr c \<Rightarrow> (Inr (Suc (Suc (length h))), h @ [c0, r, c])))"
proof -
  have w: "truediv sz (width c0) = Inr (fdiv sz (width c0))"
    using assms(1,3) by (simp add: truediv_def convert_props)
  have h: "truediv sz (height c0) = Inr (fdiv sz (height c0))"
    using assms(2,3) by (simp add: truediv_def convert_props)
  show ?thesis
    unfolding make_square_cover assms(3)[symmetric] Let_def w h sum.case
      assms(4)[symmetric] assms(5)[symmetric] assms(6)[symmetric] ..
qed


section \<open>The size of the thumbnail\<close>

lemma round_aspect_bounds:
  assumes "number \<le> of_int n" "1 \<le> n"
  shows "1 \<le> round_aspect number key" "round_aspect number key \<le> n"
proof -
  have c: "\<lceil>number\<rceil> \<le> n" using assms(1) by (simp add: ceiling_le_iff)
  have f: "\<lfloor>number\<rfloor> \<le> n" using assms(1) by (simp add: floor_le_iff) 
  show "1 \<le> round_aspect number key" by (simp add: round_aspect_def)
  show "round_aspect number key \<le> n" using c f assms(2) by (simp add: round_aspect_def)
qed

lemma preserve_aspect_ratio_le:
  assumes "1 \<le> width im" "1 \<le> height im" "pil_sized im" "1 \<le> sz"
    and "preserve_aspect_ratio im (sz, sz) = Inr (Some (x, y))"
  shows "1 \<le> x \<and> x \<le> sz \<and> 1 \<le> y \<and> y \<le> sz \<and> (x = sz \<or> y = sz)"
proof -
  have nf: "\<not> (width im \<le> sz \<and> height im \<le> sz)"
    using assms(5) by (auto simp add: preserve_aspect_ratio_def)
  then have "sz < 2 ^ 31" using assms(3) by (auto simp add: pil_sized_def)
  then have "sz < 2 ^ 53" by simp
  then have fsz: "float_of_int sz = of_int sz" using assms(4) by (simp add: float_of_int_exact)
  define aspect where "aspect = fdiv (width im) (height im)"
  have "(0::rat) < of_int (width im) / of_int (height im)" using assms(1,2) by simp
  then have apos: "0 < aspect" unfolding aspect_def fdiv_def by (rule fl_pos_gt0)
  have q: "fdiv sz sz = 1" using assms(4) by (simp add: fdiv_def fl_one)
  have szpos: "(0::rat) < of_int sz" using assms(4) by simp
  show ?thesis
  proof (cases "aspect \<le> 1")
    case True
    have "of_int sz * aspect \<le> of_int sz * 1" using True szpos by (intro mult_left_mono) simp_all
    then have "fl (of_int sz * aspect) \<le> of_int sz"
      using apos szpos \<open>sz < 2 ^ 53\<close> by (intro fl_le_int) simp_all
    then have le: "mul_if sz aspect \<le> of_int sz" by (simp add: mul_if_def fsz)
    have xy: "\<exists>key. x = round_aspect (mul_if sz aspect) key" "y = sz"
      using assms(1,2,4,5) nf True q
      by (auto simp add: preserve_aspect_ratio_def truediv_def aspect_def split: if_splits)
    show ?thesis using round_aspect_bounds[OF le assms(4)] assms(4) xy by auto
  next
    case False
    then have a1: "1 < aspect" by simp
    have "of_int sz / aspect \<le> of_int sz / 1" using a1 szpos by (intro divide_left_mono) simp_all
    moreover have "0 < of_int sz / aspect" using apos szpos by simp
    ultimately have le: "fl (of_int sz / aspect) \<le> of_int sz"
      using \<open>sz < 2 ^ 53\<close> by (intro fl_le_int) simp_all
    have ne: "aspect \<noteq> 0" using apos by simp
    have xy: "\<exists>key. y = round_aspect (fl (of_int sz / aspect)) key" "x = sz"
      using assms(1,2,4,5) nf False q ne
      by (auto simp add: preserve_aspect_ratio_def truediv_def truediv_if_def fsz aspect_def
          split: if_splits)
    show ?thesis using round_aspect_bounds[OF le assms(4)] assms(4) xy by auto
  qed
qed

lemma thumbnail_size:
  assumes "wf_image im" "pil_sized im" "1 \<le> sz" "thumbnail P im (sz, sz) = Inr t"
  shows "1 \<le> width t \<and> width t \<le> sz \<and> 1 \<le> height t \<and> height t \<le> sz \<and>
         (if width im \<le> sz \<and> height im \<le> sz then t = im else width t = sz \<or> height t = sz)"
proof -
  have d: "1 \<le> width im" "1 \<le> height im" using assms(1) by (simp_all add: wf_image_def)
  consider "preserve_aspect_ratio im (sz, sz) = Inr None" "width im \<le> sz" "height im \<le> sz"
    | x y where "preserve_aspect_ratio im (sz, sz) = Inr (Some (x, y))"
        "\<not> (width im \<le> sz \<and> height im \<le> sz)"
    using preserve_aspect_ratio_valid[OF d assms(3)] by blast
  then show ?thesis
  proof cases
    case 1
    then show ?thesis using assms(4) d by (simp add: thumbnail_def)
  next
    case (2 x y)
    from preserve_aspect_ratio_le[OF d assms(2,3) 2(1)]
    have b: "1 \<le> x" "x \<le> sz" "1 \<le> y" "y \<le> sz" "x = sz \<or> y = sz" by simp_all
    have "width t = x \<and> height t = y"
    proof (cases "(width im, height im) = (x, y)")
      case True
      then show ?thesis using assms(4) 2(1) by (simp add: thumbnail_def)
    next
      case False
      then have "resize P im (x, y) = Inr t" using assms(4) 2(1) by (simp add: thumbnail_def)
      from resize_props(2,3)[OF this] show ?thesis by simp
    qed
    then show ?thesis using b 2(2) by auto
  qed
qed

section \<open>Pixels after paste\<close>

lemma getpixel_paste:
  assumes "0 \<le> i" "i < width d" "0 \<le> j" "j < height d"
  shows "getpixel (paste d s (x, y)) i j =
     (if x \<le> i \<and> i < x + width s \<and> y \<le> j \<and> j < y + height s
      then getpixel s (i - x) (j - y) else getpixel d i j)"
  using assms by (simp add: paste_def getpixel_def raster_nth)

lemma getpixel_blank:
  assumes "0 \<le> i" "i < w" "0 \<le> j" "j < h"
  shows "getpixel \<lparr>imode = m, width = w, height = h, rows = raster w h (\<lambda>i j. c)\<rparr> i j = c"
  using assms by (simp add: getpixel_def raster_nth)

lemma paste_whole:
  assumes "wf_image s" "width s = sz" "height s = sz" "imode s = m"
  shows "paste \<lparr>imode = m, width = sz, height = sz, rows = raster sz sz f\<rparr> s (0, 0) = s"
proof -
  define d where "d = \<lparr>imode = m, width = sz, height = sz, rows = raster sz sz f\<rparr>"
  have l: "length (rows s) = nat sz" "list_all (\<lambda>r. length r = nat sz) (rows s)"
    using assms(1,2,3) by (simp_all add: wf_image_def)
  have "rows (paste d s (0, 0)) =
        raster sz sz (\<lambda>i j. if 0 \<le> i \<and> i < sz \<and> 0 \<le> j \<and> j < sz then getpixel s i j
                             else getpixel d i j)"
    using assms(2,3) by (simp add: paste_def d_def cong: if_cong)
  also have "\<dots> = rows s" by (rule raster_getpixel[OF l])
  finally have r: "rows (paste d s (0, 0)) = rows s" .
  have "paste d s (0, 0) = s"
    using r assms(2,3,4) by (intro image.equality) (simp_all add: paste_props, simp_all add: d_def paste_def)
  then show ?thesis by (simp add: d_def)
qed

lemma contain_square_input:
  assumes "wf_image (h ! img)" "1 \<le> sz" "mode \<noteq> ''cover''"
    and "imode (h ! img) = ''RGBA''" "width (h ! img) = sz" "height (h ! img) = sz"
  shows "make_square P img sz mode h = (Inr (Suc (length h)), h @ [h ! img, h ! img])"
proof -
  have c: "convert P (h ! img) ''RGBA'' = h ! img" using assms(4) by (simp add: convert_def)
  have t: "thumbnail P (h ! img) (sz, sz) = Inr (h ! img)"
    using assms(5,6) by (simp add: thumbnail_fits)
  have p: "paste \<lparr>imode = ''RGBA'', width = sz, height = sz,
                  rows = raster sz sz (\<lambda>i j. [0, 0, 0, 0])\<rparr> (h ! img) (0, 0) = h ! img"
    by (rule paste_whole[OF assms(1,5,6,4)])
  show ?thesis using assms(2) p
    by (simp add: make_square_contain[OF assms(3)] c t Image_new_ok assms(5,6))
qed

section \<open>The resampled size in mode cover\<close>

lemma py_int_lower: "of_int n \<le> x \<Longrightarrow> 0 \<le> n \<Longrightarrow> n \<le> py_int x"
proof -
  assume a: "of_int n \<le> x" and b: "0 \<le> n"
  have "(0::rat) \<le> of_int n" using b by simp
  then have "0 \<le> x" using a by linarith
  then show ?thesis using a by (simp add: py_int_def le_floor_iff)
qed


lemma cover_dim_lower:
  assumes "1 \<le> w" "w < 2 ^ 53" "1 \<le> sz" "sz \<le> 2 ^ 52" "fdiv sz w \<le> s"
  shows "sz - 1 \<le> py_int (mul_if w s)"
proof -
  define u :: rat where "u = 1 / 2 ^ 53"
  define W :: rat where "W = of_int w"
  define S :: rat where "S = of_int sz"
  have W: "1 \<le> W" and S: "1 \<le> S" using assms(1,3) by (simp_all add: W_def S_def)
  have S52: "S \<le> 2 ^ 52"
  proof -
    have "(of_int sz :: rat) \<le> of_int (2 ^ 52)" using assms(4) by (simp only: of_int_le_iff)
    then show ?thesis by (simp add: S_def)
  qed
  have fw: "float_of_int w = W" using assms(1,2) by (simp add: float_of_int_exact W_def)
  have qpos: "0 < S / W" using W S by simp
  have "S / W * (1 - u) \<le> fl (S / W)" unfolding u_def by (rule fl_lower[OF qpos])
  also have "\<dots> \<le> s" using assms(5) by (simp add: fdiv_def S_def W_def)
  finally have "W * (S / W * (1 - u)) \<le> W * s" using W by (intro mult_left_mono) simp_all
  moreover have "W * (S / W * (1 - u)) = S * (1 - u)" using W by simp
  ultimately have ws: "S * (1 - u) \<le> W * s" by simp
  have u1: "0 < 1 - u" by (simp add: u_def)
  have pos: "0 < W * s"
  proof -
    have "0 < S * (1 - u)" using S u1 by simp
    then show ?thesis using ws by linarith
  qed
  have "W * s * (1 - u) \<le> fl (W * s)" unfolding u_def by (rule fl_lower[OF pos])
  moreover have "S * (1 - u) * (1 - u) \<le> W * s * (1 - u)"
    using ws u1 by (intro mult_right_mono) simp_all
  ultimately have low: "S * (1 - u) * (1 - u) \<le> mul_if w s" by (simp add: mul_if_def fw)
  have "S * (1 - u) * (1 - u) = S - S * (2 * u) + S * u * u" by (simp add: algebra_simps)
  moreover have "S * (2 * u) \<le> 1" using S52 by (simp add: u_def)
  moreover have "0 \<le> S * u * u" using S by (simp add: u_def)
  ultimately have "S - 1 \<le> S * (1 - u) * (1 - u)" by linarith
  with low have "of_int (sz - 1) \<le> mul_if w s" by (simp add: S_def)
  then show ?thesis using assms(3) by (intro py_int_lower) simp_all
qed



lemma wf_flat: "1 \<le> w \<Longrightarrow> 1 \<le> h \<Longrightarrow> wf_image (flat m w h c)"
  by (simp add: wf_image_def flat_def list_all_iff)




section \<open>The claims\<close>

text \<open>
  C1. On a well-formed image and a size of at least one, in every mode, the image that
  \<open>make_square\<close> returns is an RGBA image of width and height \<open>sz\<close> with a buffer of that
  shape. The only other outcome is the \<open>ValueError\<close> of \<open>resize\<close> in mode \<open>cover\<close>; in mode
  \<open>contain\<close>, and in any unknown mode, an image is always returned.
\<close>

theorem returned_image_is_square:
  assumes "img < length h" "wf_image (h ! img)" "1 \<le> sz"
  shows "case result (make_square P img sz mode h) of
           Inl e \<Rightarrow> mode = ''cover'' \<and> e = ValueError
         | Inr r \<Rightarrow> imode r = ''RGBA'' \<and> width r = sz \<and> height r = sz \<and> wf_image r"
proof (cases "mode = ''cover''")
  case False
  from contain_result[OF assms(2,3) False, of P] obtain t where
    ms: "make_square P img sz mode h =
             (Inr (Suc (length h)),
              h @ [t, paste \<lparr>imode = ''RGBA'', width = sz, height = sz,
                               rows = raster sz sz (\<lambda>i j. [0, 0, 0, 0])\<rparr> t
                        ((sz - width t) div 2, (sz - height t) div 2)])" by blast
  show ?thesis using assms(3)
    by (simp add: ms result_def nth_append paste_props paste_wf)
next
  case True
  define c0 where "c0 = convert P (h ! img) ''RGBA''"
  define scale where "scale = max (fdiv sz (width c0)) (fdiv sz (height c0))"
  define nw where "nw = py_int (mul_if (width c0) scale)"
  define nh where "nh = py_int (mul_if (height c0) scale)"
  have d: "width (h ! img) \<noteq> 0" "height (h ! img) \<noteq> 0"
    using assms(2) by (auto simp add: wf_image_def)
  note ms = cover_result[OF d c0_def scale_def nw_def nh_def]
  show ?thesis
  proof (cases "resize P c0 (nw, nh)")
    case (Inl e)
    then have "e = ValueError" by (rule resize_error)
    then show ?thesis using Inl True by (simp add: ms result_def)
  next
    case (Inr r)
    have rm: "imode r = ''RGBA''" using resize_props(1)[OF Inr] by (simp add: c0_def convert_props)
    have sz0: "0 \<le> sz" using assms(3) by simp
    from crop_square_props[OF sz0, of r "(nw - sz) div 2" "(nh - sz) div 2"]
    obtain c where c: "crop r ((nw - sz) div 2, (nh - sz) div 2,
                             (nw - sz) div 2 + sz, (nh - sz) div 2 + sz) = Inr c"
      and cp: "imode c = imode r" "width c = sz" "height c = sz"
      and cr: "rows c = raster sz sz
            (\<lambda>i j. if 0 \<le> i + (nw - sz) div 2 \<and> i + (nw - sz) div 2 < width r \<and>
                       0 \<le> j + (nh - sz) div 2 \<and> j + (nh - sz) div 2 < height r
                    then getpixel r (i + (nw - sz) div 2) (j + (nh - sz) div 2) else [0, 0, 0, 0])"
      by blast
    have "wf_image c" using cp cr assms(3) by (simp add: wf_image_def raster_length raster_rows)
    then show ?thesis using Inr True c cp rm
      by (simp add: ms result_def nth_append)
  qed
qed

theorem returned_image_is_square_witness:
  "(0::nat) < length [flat ''RGBA'' 2 1 [1, 2, 3, 255]] \<and>
   wf_image ([flat ''RGBA'' 2 1 [1, 2, 3, 255]] ! 0) \<and> (1::int) \<le> 2 \<and>
   result (make_square box_core 0 2 ''cover'' [flat ''RGBA'' 2 1 [1, 2, 3, 255]]) =
     Inr \<lparr>imode = ''RGBA'', width = 2, height = 2,
          rows = [[[1, 2, 3, 255], [1, 2, 3, 255]], [[1, 2, 3, 255], [1, 2, 3, 255]]]\<rparr> \<and>
   wf_image \<lparr>imode = ''RGBA'', width = 2, height = 2,
          rows = [[[1, 2, 3, 255], [1, 2, 3, 255]], [[1, 2, 3, 255], [1, 2, 3, 255]]]\<rparr>"
proof -
  have l: "(0::nat) < length [flat ''RGBA'' 2 1 [1, 2, 3, 255]]" by simp
  have w: "wf_image ([flat ''RGBA'' 2 1 [1, 2, 3, 255]] ! 0)" by code_simp
  have s: "(1::int) \<le> 2" by simp
  have r: "result (make_square box_core 0 2 ''cover'' [flat ''RGBA'' 2 1 [1, 2, 3, 255]]) =
     Inr \<lparr>imode = ''RGBA'', width = 2, height = 2,
          rows = [[[1, 2, 3, 255], [1, 2, 3, 255]], [[1, 2, 3, 255], [1, 2, 3, 255]]]\<rparr>"
    by code_simp
  from returned_image_is_square[OF l w s, where P = box_core and mode = "''cover''"] l w r
  show ?thesis by simp
qed

text \<open>
  C2. A mode other than \<open>contain\<close> and \<open>cover\<close> (such as \<open>COVER\<close> or \<open>bogus-mode\<close>) gives
  exactly what mode \<open>contain\<close> gives, store included, and on a well-formed image with a size
  of at least one that is a returned image, not an exception.
\<close>

theorem unknown_mode_is_contain:
  assumes "mode \<notin> {''contain'', ''cover''}"
  shows "make_square P img sz mode h = make_square P img sz ''contain'' h \<and>
         (wf_image (h ! img) \<and> 1 \<le> sz \<longrightarrow> (\<exists>r. fst (make_square P img sz mode h) = Inr r))"
proof -
  have eq: "make_square P img sz mode h = make_square P img sz ''contain'' h"
    using assms by (simp add: make_square_def)
  have "\<exists>r. fst (make_square P img sz mode h) = Inr r" if wf: "wf_image (h ! img)" and sz: "1 \<le> sz"
  proof -
    have m: "mode \<noteq> ''cover''" using assms by auto
    from thumbnail_valid[OF convert_wf[OF wf] sz, of P P]
    obtain t where t: "thumbnail P (convert P (h ! img) ''RGBA'') (sz, sz) = Inr t" by blast
    show ?thesis using t sz by (simp add: make_square_contain[OF m] Image_new_def)
  qed
  with eq show ?thesis by blast
qed

theorem unknown_mode_is_contain_witness:
  "''COVER'' \<notin> {''contain'', ''cover''} \<and>
   make_square box_core 0 2 ''COVER'' [flat ''RGB'' 2 1 [9, 8, 7]] =
   make_square box_core 0 2 ''contain'' [flat ''RGB'' 2 1 [9, 8, 7]] \<and>
   result (make_square box_core 0 2 ''COVER'' [flat ''RGB'' 2 1 [9, 8, 7]]) =
     Inr \<lparr>imode = ''RGBA'', width = 2, height = 2,
          rows = [[[9, 8, 7, 255], [9, 8, 7, 255]], [[0, 0, 0, 0], [0, 0, 0, 0]]]\<rparr>"
proof -
  have m: "''COVER'' \<notin> {''contain'', ''cover''}" by simp
  have r: "result (make_square box_core 0 2 ''contain'' [flat ''RGB'' 2 1 [9, 8, 7]]) =
     Inr \<lparr>imode = ''RGBA'', width = 2, height = 2,
          rows = [[[9, 8, 7, 255], [9, 8, 7, 255]], [[0, 0, 0, 0], [0, 0, 0, 0]]]\<rparr>"
    by code_simp
  from unknown_mode_is_contain[OF m, of box_core 0 2 "[flat ''RGB'' 2 1 [9, 8, 7]]"] m r
  show ?thesis by simp
qed




text \<open>
  C4. In mode \<open>contain\<close> (and in any unknown mode) on a well-formed image and a size of at
  least one, the thumbnail \<open>t\<close> is pasted at \<open>x = (sz - width t) div 2\<close>,
  \<open>y = (sz - height t) div 2\<close>: inside the canvas every pixel of that box is the pixel of \<open>t\<close>
  and every other pixel is transparent. The padding before the box (left or top) is at
  most the padding after it (right or bottom), and smaller by at most one: when the
  difference is odd the extra pixel is at the bottom or at the right.
\<close>

theorem contain_paste_offsets:
  assumes "img < length h" "wf_image (h ! img)" "1 \<le> sz" "mode \<noteq> ''cover''"
  shows "\<exists>t res. thumbnail P (convert P (h ! img) ''RGBA'') (sz, sz) = Inr t \<and>
           snd (make_square P img sz mode h) ! length h = t \<and>
           result (make_square P img sz mode h) = Inr res \<and>
           (\<forall>i j. 0 \<le> i \<and> i < sz \<and> 0 \<le> j \<and> j < sz \<longrightarrow>
              getpixel res i j =
                (if (sz - width t) div 2 \<le> i \<and> i < (sz - width t) div 2 + width t \<and>
                    (sz - height t) div 2 \<le> j \<and> j < (sz - height t) div 2 + height t
                 then getpixel t (i - (sz - width t) div 2) (j - (sz - height t) div 2)
                 else [0, 0, 0, 0])) \<and>
           (sz - width t) div 2 \<le> sz - width t - (sz - width t) div 2 \<and>
           sz - width t - (sz - width t) div 2 \<le> (sz - width t) div 2 + 1 \<and>
           (sz - height t) div 2 \<le> sz - height t - (sz - height t) div 2 \<and>
           sz - height t - (sz - height t) div 2 \<le> (sz - height t) div 2 + 1"
proof -
  from contain_result[OF assms(2,3,4), of P] obtain t where
    t: "thumbnail P (convert P (h ! img) ''RGBA'') (sz, sz) = Inr t" and
    ms: "make_square P img sz mode h =
             (Inr (Suc (length h)),
              h @ [t, paste \<lparr>imode = ''RGBA'', width = sz, height = sz,
                               rows = raster sz sz (\<lambda>i j. [0, 0, 0, 0])\<rparr> t
                        ((sz - width t) div 2, (sz - height t) div 2)])" by blast
  define res where "res = paste \<lparr>imode = ''RGBA'', width = sz, height = sz,
                               rows = raster sz sz (\<lambda>i j. [0, 0, 0, 0])\<rparr> t
                        ((sz - width t) div 2, (sz - height t) div 2)"
  have a: "snd (make_square P img sz mode h) ! length h = t" by (simp add: ms nth_append)
  have b: "result (make_square P img sz mode h) = Inr res"
    by (simp add: ms result_def nth_append res_def)
  have c: "getpixel res i j =
                (if (sz - width t) div 2 \<le> i \<and> i < (sz - width t) div 2 + width t \<and>
                    (sz - height t) div 2 \<le> j \<and> j < (sz - height t) div 2 + height t
                 then getpixel t (i - (sz - width t) div 2) (j - (sz - height t) div 2)
                 else [0, 0, 0, 0])"
    if "0 \<le> i \<and> i < sz \<and> 0 \<le> j \<and> j < sz" for i j
    using that unfolding res_def by (simp add: getpixel_paste getpixel_blank)
  have d: "(sz - width t) div 2 \<le> sz - width t - (sz - width t) div 2"
          "sz - width t - (sz - width t) div 2 \<le> (sz - width t) div 2 + 1"
          "(sz - height t) div 2 \<le> sz - height t - (sz - height t) div 2"
          "sz - height t - (sz - height t) div 2 \<le> (sz - height t) div 2 + 1"
    by linarith+
  from t a b c d show ?thesis by blast
qed

theorem contain_paste_offsets_witness:
  "(0::nat) < length [flat ''RGB'' 2 1 [9, 8, 7]] \<and>
   wf_image ([flat ''RGB'' 2 1 [9, 8, 7]] ! 0) \<and> (1::int) \<le> 2 \<and> ''contain'' \<noteq> ''cover'' \<and>
   (\<exists>t res. thumbnail box_core (convert box_core ([flat ''RGB'' 2 1 [9, 8, 7]] ! 0) ''RGBA'') (2, 2) = Inr t \<and>
           snd (make_square box_core 0 2 ''contain'' [flat ''RGB'' 2 1 [9, 8, 7]]) !
             length [flat ''RGB'' 2 1 [9, 8, 7]] = t \<and>
           result (make_square box_core 0 2 ''contain'' [flat ''RGB'' 2 1 [9, 8, 7]]) = Inr res \<and>
           (\<forall>i j. 0 \<le> i \<and> i < 2 \<and> 0 \<le> j \<and> j < 2 \<longrightarrow>
              getpixel res i j =
                (if (2 - width t) div 2 \<le> i \<and> i < (2 - width t) div 2 + width t \<and>
                    (2 - height t) div 2 \<le> j \<and> j < (2 - height t) div 2 + height t
                 then getpixel t (i - (2 - width t) div 2) (j - (2 - height t) div 2)
                 else [0, 0, 0, 0])) \<and>
           (2 - width t) div 2 \<le> 2 - width t - (2 - width t) div 2 \<and>
           2 - width t - (2 - width t) div 2 \<le> (2 - width t) div 2 + 1 \<and>
           (2 - height t) div 2 \<le> 2 - height t - (2 - height t) div 2 \<and>
           2 - height t - (2 - height t) div 2 \<le> (2 - height t) div 2 + 1)"
proof -
  have l: "(0::nat) < length [flat ''RGB'' 2 1 [9, 8, 7]]" by simp
  have w: "wf_image ([flat ''RGB'' 2 1 [9, 8, 7]] ! 0)" by code_simp
  have s: "(1::int) \<le> 2" by simp
  have m: "''contain'' \<noteq> ''cover''" by simp
  note c = contain_paste_offsets[OF l w s m, where P = box_core]
  show ?thesis by (rule conjI[OF l conjI[OF w conjI[OF s conjI[OF m c]]]])
qed

text \<open>
  The claim as it is written puts the extra pixel at the top or at the left. A 2 by 1
  image at size 2 has one row of padding; the thumbnail is pasted at \<open>y = 0\<close>, so the top
  padding is 0, the bottom padding is 1, and the transparent row is the second one.
\<close>

theorem contain_padding_counterexample:
  "height (snd (make_square box_core 0 2 ''contain'' [flat ''RGB'' 2 1 [9, 8, 7]]) ! 1) = 1 \<and>
   (2 - height (snd (make_square box_core 0 2 ''contain'' [flat ''RGB'' 2 1 [9, 8, 7]]) ! 1)) div 2 = 0 \<and>
   2 - height (snd (make_square box_core 0 2 ''contain'' [flat ''RGB'' 2 1 [9, 8, 7]]) ! 1)
     - (2 - height (snd (make_square box_core 0 2 ''contain'' [flat ''RGB'' 2 1 [9, 8, 7]]) ! 1)) div 2 = 1 \<and>
   result (make_square box_core 0 2 ''contain'' [flat ''RGB'' 2 1 [9, 8, 7]]) =
     Inr \<lparr>imode = ''RGBA'', width = 2, height = 2,
          rows = [[[9, 8, 7, 255], [9, 8, 7, 255]], [[0, 0, 0, 0], [0, 0, 0, 0]]]\<rparr>"
  by code_simp

text \<open>
  C5. In mode \<open>contain\<close> (and in any unknown mode) on a well-formed image with dimensions
  below \<open>2^31\<close> and a size of at least one, the thumbnail that is pasted has a width and a
  height between 1 and \<open>sz\<close>. An image that already fits in \<open>sz\<close> by \<open>sz\<close> keeps its
  dimensions: \<open>thumbnail\<close> never scales up. An image that does not fit is scaled down to a
  width or a height of exactly \<open>sz\<close>.
\<close>

theorem contain_scaled_size:
  assumes "img < length h" "wf_image (h ! img)" "pil_sized (h ! img)" "1 \<le> sz"
    and "mode \<noteq> ''cover''"
  shows "\<exists>t. thumbnail P (convert P (h ! img) ''RGBA'') (sz, sz) = Inr t \<and>
           snd (make_square P img sz mode h) ! length h = t \<and>
           1 \<le> width t \<and> width t \<le> sz \<and> 1 \<le> height t \<and> height t \<le> sz \<and>
           (if width (h ! img) \<le> sz \<and> height (h ! img) \<le> sz
            then width t = width (h ! img) \<and> height t = height (h ! img)
            else width t = sz \<or> height t = sz)"
proof -
  from contain_result[OF assms(2,4,5), of P] obtain t where
    t: "thumbnail P (convert P (h ! img) ''RGBA'') (sz, sz) = Inr t" and
    ms: "make_square P img sz mode h =
             (Inr (Suc (length h)),
              h @ [t, paste \<lparr>imode = ''RGBA'', width = sz, height = sz,
                               rows = raster sz sz (\<lambda>i j. [0, 0, 0, 0])\<rparr> t
                        ((sz - width t) div 2, (sz - height t) div 2)])" by blast
  have a: "snd (make_square P img sz mode h) ! length h = t" by (simp add: ms nth_append)
  have ps: "pil_sized (convert P (h ! img) ''RGBA'')"
    using assms(3) by (simp add: pil_sized_def convert_props)
  from thumbnail_size[OF convert_wf[OF assms(2)] ps assms(4) t]
  have "1 \<le> width t \<and> width t \<le> sz \<and> 1 \<le> height t \<and> height t \<le> sz \<and>
           (if width (h ! img) \<le> sz \<and> height (h ! img) \<le> sz
            then width t = width (h ! img) \<and> height t = height (h ! img)
            else width t = sz \<or> height t = sz)"
    by (auto simp add: convert_props split: if_splits)
  with t a show ?thesis by blast
qed

theorem contain_scaled_size_witness:
  "(0::nat) < length [flat ''RGB'' 300 100 [9, 8, 7]] \<and>
   wf_image ([flat ''RGB'' 300 100 [9, 8, 7]] ! 0) \<and>
   pil_sized ([flat ''RGB'' 300 100 [9, 8, 7]] ! 0) \<and> (1::int) \<le> 128 \<and> ''contain'' \<noteq> ''cover'' \<and>
   (\<exists>t. thumbnail box_core (convert box_core ([flat ''RGB'' 300 100 [9, 8, 7]] ! 0) ''RGBA'') (128, 128) = Inr t \<and>
           snd (make_square box_core 0 128 ''contain'' [flat ''RGB'' 300 100 [9, 8, 7]]) !
             length [flat ''RGB'' 300 100 [9, 8, 7]] = t \<and>
           1 \<le> width t \<and> width t \<le> 128 \<and> 1 \<le> height t \<and> height t \<le> 128 \<and>
           (if width ([flat ''RGB'' 300 100 [9, 8, 7]] ! 0) \<le> 128 \<and>
               height ([flat ''RGB'' 300 100 [9, 8, 7]] ! 0) \<le> 128
            then width t = width ([flat ''RGB'' 300 100 [9, 8, 7]] ! 0) \<and>
                 height t = height ([flat ''RGB'' 300 100 [9, 8, 7]] ! 0)
            else width t = 128 \<or> height t = 128))"
proof -
  have l: "(0::nat) < length [flat ''RGB'' 300 100 [9, 8, 7]]" by simp
  have w: "wf_image ([flat ''RGB'' 300 100 [9, 8, 7]] ! 0)"
    by (simp add: wf_image_def flat_def list_all_iff)
  have p: "pil_sized ([flat ''RGB'' 300 100 [9, 8, 7]] ! 0)" by (simp add: pil_sized_def flat_def)
  have s: "(1::int) \<le> 128" by simp
  have m: "''contain'' \<noteq> ''cover''" by simp
  note c = contain_scaled_size[OF l w p s m, where P = box_core]
  show ?thesis by (rule conjI[OF l conjI[OF w conjI[OF p conjI[OF s conjI[OF m c]]]]])
qed

text \<open>
  The claim as it is written has a source smaller than the size scaled up until one
  dimension equals the size. A 16 by 16 image at size 128 stays 16 by 16.
\<close>

theorem contain_no_upscale_counterexample:
  "width (snd (make_square box_core 0 128 ''contain'' [flat ''RGBA'' 16 16 [9, 8, 7, 255]]) ! 1) = 16 \<and>
   height (snd (make_square box_core 0 128 ''contain'' [flat ''RGBA'' 16 16 [9, 8, 7, 255]]) ! 1) = 16"
proof -
  have m: "''contain'' \<noteq> ''cover''" by simp
  have c: "convert box_core (flat ''RGBA'' 16 16 [9, 8, 7, 255]) ''RGBA'' = flat ''RGBA'' 16 16 [9, 8, 7, 255]"
    by (simp add: convert_def flat_def)
  have t: "thumbnail box_core (flat ''RGBA'' 16 16 [9, 8, 7, 255]) (128, 128) = Inr (flat ''RGBA'' 16 16 [9, 8, 7, 255])"
    by (rule thumbnail_fits) (simp_all add: flat_def)
  have "snd (make_square box_core 0 128 ''contain'' [flat ''RGBA'' 16 16 [9, 8, 7, 255]]) ! 1 =
        flat ''RGBA'' 16 16 [9, 8, 7, 255]"
    by (simp add: make_square_contain[OF m] c t Image_new_ok)
  then show ?thesis by (simp add: flat_def)
qed

text \<open>
  C6. In mode \<open>cover\<close> on a well-formed image with dimensions below \<open>2^31\<close> and a size from 1
  to \<open>2^52\<close>, the image is resampled to \<open>nw = int(w * scale)\<close>, \<open>nh = int(h * scale)\<close> with
  \<open>scale = max(sz / w, sz / h)\<close>, where \<open>int\<close> truncates. Both are at least \<open>sz - 1\<close>. The
  call raises only when the size is 1 and a dimension was truncated to 0. Whenever both
  \<open>nw\<close> and \<open>nh\<close> are at least \<open>sz\<close>, the crop window lies within the resampled image.
\<close>

theorem cover_resampled_size:
  assumes "img < length h" "wf_image (h ! img)" "pil_sized (h ! img)" "1 \<le> sz" "sz \<le> 2 ^ 52"
    and "scale = max (fdiv sz (width (h ! img))) (fdiv sz (height (h ! img)))"
    and "nw = py_int (mul_if (width (h ! img)) scale)"
    and "nh = py_int (mul_if (height (h ! img)) scale)"
  shows "sz - 1 \<le> nw \<and> sz - 1 \<le> nh \<and>
         (case fst (make_square P img sz ''cover'' h) of
            Inl e \<Rightarrow> e = ValueError \<and> sz = 1 \<and> (nw = 0 \<or> nh = 0)
          | Inr r \<Rightarrow> width (snd (make_square P img sz ''cover'' h) ! Suc (length h)) = nw \<and>
                     height (snd (make_square P img sz ''cover'' h) ! Suc (length h)) = nh) \<and>
         (sz \<le> nw \<and> sz \<le> nh \<longrightarrow>
            0 \<le> (nw - sz) div 2 \<and> (nw - sz) div 2 + sz \<le> nw \<and>
            0 \<le> (nh - sz) div 2 \<and> (nh - sz) div 2 + sz \<le> nh)"
proof -
  have d: "1 \<le> width (h ! img)" "1 \<le> height (h ! img)"
    using assms(2) by (simp_all add: wf_image_def)
  have b: "width (h ! img) < 2 ^ 53" "height (h ! img) < 2 ^ 53"
    using assms(3) by (simp_all add: pil_sized_def)
  have lw: "sz - 1 \<le> nw"
    unfolding assms(7) by (rule cover_dim_lower[OF d(1) b(1) assms(4,5)]) (simp add: assms(6))
  have lh: "sz - 1 \<le> nh"
    unfolding assms(8) by (rule cover_dim_lower[OF d(2) b(2) assms(4,5)]) (simp add: assms(6))
  define c0 where "c0 = convert P (h ! img) ''RGBA''"
  have d0: "width (h ! img) \<noteq> 0" "height (h ! img) \<noteq> 0" using d by simp_all
  have sc: "scale = max (fdiv sz (width c0)) (fdiv sz (height c0))"
    by (simp add: assms(6) c0_def convert_props)
  have nw: "nw = py_int (mul_if (width c0) scale)" by (simp add: assms(7) c0_def convert_props)
  have nh: "nh = py_int (mul_if (height c0) scale)" by (simp add: assms(8) c0_def convert_props)
  note ms = cover_result[OF d0 c0_def sc nw nh]
  have mid: "case fst (make_square P img sz ''cover'' h) of
            Inl e \<Rightarrow> e = ValueError \<and> sz = 1 \<and> (nw = 0 \<or> nh = 0)
          | Inr r \<Rightarrow> width (snd (make_square P img sz ''cover'' h) ! Suc (length h)) = nw \<and>
                     height (snd (make_square P img sz ''cover'' h) ! Suc (length h)) = nh"
  proof (cases "resize P c0 (nw, nh)")
    case (Inl e)
    then have "nw < 1 \<or> nh < 1" by (auto simp add: resize_def split: if_splits)
    moreover have "e = ValueError" using Inl by (rule resize_error)
    ultimately show ?thesis using Inl lw lh assms(4) by (auto simp add: ms)
  next
    case (Inr r)
    have sz0: "0 \<le> sz" using assms(4) by simp
    from crop_square_props[OF sz0, of r "(nw - sz) div 2" "(nh - sz) div 2"]
    obtain c where c: "crop r ((nw - sz) div 2, (nh - sz) div 2,
                             (nw - sz) div 2 + sz, (nh - sz) div 2 + sz) = Inr c" by blast
    from resize_props(2,3)[OF Inr] show ?thesis using Inr c by (simp add: ms nth_append)
  qed
  have win: "0 \<le> (nw - sz) div 2 \<and> (nw - sz) div 2 + sz \<le> nw \<and>
            0 \<le> (nh - sz) div 2 \<and> (nh - sz) div 2 + sz \<le> nh" if "sz \<le> nw \<and> sz \<le> nh"
    using that by linarith
  from lw lh mid win show ?thesis by blast
qed

theorem cover_resampled_size_witness:
  "(0::nat) < length [flat ''RGBA'' 4 2 [9, 8, 7, 255]] \<and>
   wf_image ([flat ''RGBA'' 4 2 [9, 8, 7, 255]] ! 0) \<and>
   pil_sized ([flat ''RGBA'' 4 2 [9, 8, 7, 255]] ! 0) \<and> (1::int) \<le> 2 \<and> (2::int) \<le> 2 ^ 52 \<and>
   (1::rat) = max (fdiv 2 (width ([flat ''RGBA'' 4 2 [9, 8, 7, 255]] ! 0)))
                  (fdiv 2 (height ([flat ''RGBA'' 4 2 [9, 8, 7, 255]] ! 0))) \<and>
   (4::int) = py_int (mul_if (width ([flat ''RGBA'' 4 2 [9, 8, 7, 255]] ! 0)) 1) \<and>
   (2::int) = py_int (mul_if (height ([flat ''RGBA'' 4 2 [9, 8, 7, 255]] ! 0)) 1) \<and>
   fst (make_square box_core 0 2 ''cover'' [flat ''RGBA'' 4 2 [9, 8, 7, 255]]) = Inr 3 \<and>
   width (snd (make_square box_core 0 2 ''cover'' [flat ''RGBA'' 4 2 [9, 8, 7, 255]]) ! 2) = 4 \<and>
   height (snd (make_square box_core 0 2 ''cover'' [flat ''RGBA'' 4 2 [9, 8, 7, 255]]) ! 2) = 2 \<and>
   (0::int) \<le> (4 - 2) div 2 \<and> ((4::int) - 2) div 2 + 2 \<le> 4 \<and>
   (0::int) \<le> (2 - 2) div 2 \<and> ((2::int) - 2) div 2 + 2 \<le> 2"
proof -
  have l: "(0::nat) < length [flat ''RGBA'' 4 2 [9, 8, 7, 255]]" by simp
  have w: "wf_image ([flat ''RGBA'' 4 2 [9, 8, 7, 255]] ! 0)" by code_simp
  have p: "pil_sized ([flat ''RGBA'' 4 2 [9, 8, 7, 255]] ! 0)" by (simp add: pil_sized_def flat_def)
  have s: "(1::int) \<le> 2" by simp
  have s52: "(2::int) \<le> 2 ^ 52" by simp
  have sc: "(1::rat) = max (fdiv 2 (width ([flat ''RGBA'' 4 2 [9, 8, 7, 255]] ! 0)))
                  (fdiv 2 (height ([flat ''RGBA'' 4 2 [9, 8, 7, 255]] ! 0)))" by code_simp
  have nw: "(4::int) = py_int (mul_if (width ([flat ''RGBA'' 4 2 [9, 8, 7, 255]] ! 0)) 1)" by code_simp
  have nh: "(2::int) = py_int (mul_if (height ([flat ''RGBA'' 4 2 [9, 8, 7, 255]] ! 0)) 1)" by code_simp
  have r: "fst (make_square box_core 0 2 ''cover'' [flat ''RGBA'' 4 2 [9, 8, 7, 255]]) = Inr 3"
    by code_simp
  from cover_resampled_size[OF l w p s s52 sc nw nh, where P = box_core] r
  have c: "fst (make_square box_core 0 2 ''cover'' [flat ''RGBA'' 4 2 [9, 8, 7, 255]]) = Inr 3 \<and>
   width (snd (make_square box_core 0 2 ''cover'' [flat ''RGBA'' 4 2 [9, 8, 7, 255]]) ! 2) = 4 \<and>
   height (snd (make_square box_core 0 2 ''cover'' [flat ''RGBA'' 4 2 [9, 8, 7, 255]]) ! 2) = 2 \<and>
   (0::int) \<le> (4 - 2) div 2 \<and> ((4::int) - 2) div 2 + 2 \<le> 4 \<and>
   (0::int) \<le> (2 - 2) div 2 \<and> ((2::int) - 2) div 2 + 2 \<le> 2"
    by (simp add: numeral_2_eq_2)
  show ?thesis
    by (rule conjI[OF l conjI[OF w conjI[OF p conjI[OF s conjI[OF s52 conjI[OF sc conjI[OF nw conjI[OF nh c]]]]]]]])
qed

text \<open>
  The claim as it is written rounds the scaled dimensions. For a 5 by 3 image at size 1
  the scale is \<open>1/3\<close> in binary64 and \<open>5 * scale\<close> is a little below \<open>5/3\<close>: rounding gives 2,
  the code resamples to a width of 1.
\<close>

theorem cover_truncates_counterexample:
  "width (snd (make_square box_core 0 1 ''cover'' [flat ''RGBA'' 5 3 [9, 8, 7, 255]]) ! 2) = 1 \<and>
   round_half_even (mul_if 5 (max (fdiv 1 5) (fdiv 1 3))) = 2 \<and>
   mul_if 5 (max (fdiv 1 5) (fdiv 1 3)) = 7505999378950826 / 4503599627370496"
  by code_simp

text \<open>
  C7. Mode \<open>cover\<close> is meant to fill the square (the docstring of \<open>make_square\<close> says so),
  and the claim is that no pixel of the result is padding. For the opaque 49 by 49 image
  and the default icon size 16 the code computes \<open>49 * (16 / 49) = 15.999999999999998\<close>,
  truncates it to 15, resamples to 15 by 15 and crops the box \<open>(-1, -1, 15, 15)\<close>: the first
  row and the first column of the 16 by 16 result lie outside the resampled image and are
  transparent, whatever the resampling routine computes.
\<close>

theorem cover_leaves_padding:
  "wf_image (flat ''RGBA'' 49 49 [255, 0, 0, 255]) \<and>
   width (snd (make_square P 0 16 ''cover'' [flat ''RGBA'' 49 49 [255, 0, 0, 255]]) ! 2) = 15 \<and>
   height (snd (make_square P 0 16 ''cover'' [flat ''RGBA'' 49 49 [255, 0, 0, 255]]) ! 2) = 15 \<and>
   map_sum id (\<lambda>r. (width r, height r, getpixel r 0 0, getpixel r 15 0, getpixel r 0 15))
     (result (make_square P 0 16 ''cover'' [flat ''RGBA'' 49 49 [255, 0, 0, 255]])) =
     Inr (16, 16, [0, 0, 0, 0], [0, 0, 0, 0], [0, 0, 0, 0])"
proof -
  have b: "wf_image (flat ''RGBA'' 49 49 [255, 0, 0, 255])" by (simp add: wf_flat)
  define c0 where "c0 = convert P ([flat ''RGBA'' 49 49 [255, 0, 0, 255]] ! 0) ''RGBA''"
  define scale where "scale = max (fdiv 16 (width c0)) (fdiv 16 (height c0))"
  define nw where "nw = py_int (mul_if (width c0) scale)"
  define nh where "nh = py_int (mul_if (height c0) scale)"
  have d0: "width ([flat ''RGBA'' 49 49 [255, 0, 0, 255]] ! 0) \<noteq> 0"
           "height ([flat ''RGBA'' 49 49 [255, 0, 0, 255]] ! 0) \<noteq> 0" by (simp_all add: flat_def)
  note ms = cover_result[OF d0 c0_def scale_def nw_def nh_def]
  have w: "width c0 = 49" "height c0 = 49" by (simp_all add: c0_def convert_props flat_def)
  have n: "py_int (mul_if 49 (max (fdiv 16 49) (fdiv 16 49))) = 15" by code_simp
  have nn: "nw = 15" "nh = 15" using n by (simp_all add: nw_def nh_def scale_def w)
  from resize_ok[of "(15, 15)" P c0] obtain r where r: "resize P c0 (15, 15) = Inr r" by auto
  from resize_props(2,3)[OF r] have rd: "width r = 15" "height r = 15" by simp_all
  from crop_square_props[of 16 r "-1" "-1"]
  obtain c where c: "crop r (- 1, - 1, - 1 + 16, - 1 + 16) = Inr c"
    and cd: "width c = 16" "height c = 16"
    and cr: "rows c = raster 16 16
            (\<lambda>i j. if 0 \<le> i + - 1 \<and> i + - 1 < width r \<and> 0 \<le> j + - 1 \<and> j + - 1 < height r
                    then getpixel r (i + - 1) (j + - 1) else [0, 0, 0, 0])"
    by auto
  have m: "make_square P 0 16 ''cover'' [flat ''RGBA'' 49 49 [255, 0, 0, 255]] =
             (Inr 3, [flat ''RGBA'' 49 49 [255, 0, 0, 255], c0, r, c])"
    using r c by (simp add: ms nn)
  have px: "getpixel c 0 0 = [0, 0, 0, 0]" "getpixel c 15 0 = [0, 0, 0, 0]"
           "getpixel c 0 15 = [0, 0, 0, 0]"
    using raster_nth[of 0 16 0 16] raster_nth[of 15 16 0 16] raster_nth[of 0 16 15 16]
    by (simp_all add: getpixel_def cr)
  show ?thesis using b rd cd px by (simp add: m result_def)
qed

text \<open>
  C8. Mode \<open>contain\<close> is idempotent: on a well-formed image and a size of at least one the
  call returns, and calling \<open>make_square\<close> again on the returned image with the same size
  returns an image equal to it. An RGBA image that is already \<open>sz\<close> by \<open>sz\<close> comes back
  unchanged.
\<close>

theorem contain_idempotent:
  assumes "img < length h" "wf_image (h ! img)" "1 \<le> sz"
  shows "fst (make_square P img sz ''contain'' h) = Inr (Suc (length h)) \<and>
         result (make_square P (Suc (length h)) sz ''contain''
                   (snd (make_square P img sz ''contain'' h))) =
         result (make_square P img sz ''contain'' h) \<and>
         (imode (h ! img) = ''RGBA'' \<and> width (h ! img) = sz \<and> height (h ! img) = sz \<longrightarrow>
            result (make_square P img sz ''contain'' h) = Inr (h ! img))"
proof -
  have m: "''contain'' \<noteq> ''cover''" by simp
  from contain_result[OF assms(2,3) m, of P] obtain t where
    ms: "make_square P img sz ''contain'' h =
             (Inr (Suc (length h)),
              h @ [t, paste \<lparr>imode = ''RGBA'', width = sz, height = sz,
                               rows = raster sz sz (\<lambda>i j. [0, 0, 0, 0])\<rparr> t
                        ((sz - width t) div 2, (sz - height t) div 2)])" by blast
  define res where "res = paste \<lparr>imode = ''RGBA'', width = sz, height = sz,
                               rows = raster sz sz (\<lambda>i j. [0, 0, 0, 0])\<rparr> t
                        ((sz - width t) div 2, (sz - height t) div 2)"
  define h1 where "h1 = h @ [t, res]"
  have ms1: "make_square P img sz ''contain'' h = (Inr (Suc (length h)), h1)"
    by (simp add: ms h1_def res_def)
  have at: "h1 ! Suc (length h) = res" by (simp add: h1_def nth_append)
  have rp: "imode res = ''RGBA''" "width res = sz" "height res = sz"
    by (simp_all add: res_def paste_props)
  have rw: "wf_image res" using assms(3) by (simp add: res_def paste_wf)
  have second: "make_square P (Suc (length h)) sz ''contain'' h1 =
                  (Inr (Suc (length h1)), h1 @ [res, res])"
    using contain_square_input[of h1 "Suc (length h)" sz "''contain''" P] rp rw assms(3)
    by (simp add: at)
  have a: "result (make_square P (Suc (length h)) sz ''contain'' h1) = Inr res"
    by (simp add: second result_def nth_append)
  have b: "result (make_square P img sz ''contain'' h) = Inr res"
    by (simp add: ms1 result_def at)
  have c: "result (make_square P img sz ''contain'' h) = Inr (h ! img)"
    if "imode (h ! img) = ''RGBA'' \<and> width (h ! img) = sz \<and> height (h ! img) = sz"
    using contain_square_input[OF assms(2,3) m, of P] that
    by (simp add: result_def nth_append)
  show ?thesis using a b c by (simp add: ms1)
qed

theorem contain_idempotent_witness:
  "(0::nat) < length [flat ''RGB'' 3 1 [5, 6, 7]] \<and>
   wf_image ([flat ''RGB'' 3 1 [5, 6, 7]] ! 0) \<and> (1::int) \<le> 2 \<and>
   result (make_square box_core 2 2 ''contain''
             (snd (make_square box_core 0 2 ''contain'' [flat ''RGB'' 3 1 [5, 6, 7]]))) =
     Inr \<lparr>imode = ''RGBA'', width = 2, height = 2,
          rows = [[[5, 6, 7, 255], [5, 6, 7, 255]], [[0, 0, 0, 0], [0, 0, 0, 0]]]\<rparr>"
proof -
  have l: "(0::nat) < length [flat ''RGB'' 3 1 [5, 6, 7]]" by simp
  have w: "wf_image ([flat ''RGB'' 3 1 [5, 6, 7]] ! 0)" by code_simp
  have s: "(1::int) \<le> 2" by simp
  have r: "result (make_square box_core 0 2 ''contain'' [flat ''RGB'' 3 1 [5, 6, 7]]) =
     Inr \<lparr>imode = ''RGBA'', width = 2, height = 2,
          rows = [[[5, 6, 7, 255], [5, 6, 7, 255]], [[0, 0, 0, 0], [0, 0, 0, 0]]]\<rparr>"
    by code_simp
  from contain_idempotent[OF l w s, where P = box_core] l w r show ?thesis
    by (simp add: numeral_2_eq_2)
qed

text \<open>
  C9. Whatever the size and the mode, and whether the call returns or raises, every object
  that was in the store before the call, the argument among them, is the same afterwards.
  A returned reference is a new object, different from the argument, so writing to the
  result later cannot change the source.
\<close>

theorem input_left_alone:
  assumes "img < length h"
  shows "(\<forall>i < length h. snd (make_square P img sz mode h) ! i = h ! i) \<and>
         (\<forall>r. fst (make_square P img sz mode h) = Inr r \<longrightarrow>
            length h \<le> r \<and> r < length (snd (make_square P img sz mode h)) \<and> r \<noteq> img \<and>
            (\<forall>im. (snd (make_square P img sz mode h))[r := im] ! img = h ! img))"
proof -
  obtain ys where ys: "snd (make_square P img sz mode h) = h @ ys"
    using make_square_frame by blast
  have a: "\<forall>i < length h. snd (make_square P img sz mode h) ! i = h ! i"
    by (simp add: ys nth_append)
  have b: "length h \<le> r \<and> r < length (snd (make_square P img sz mode h)) \<and> r \<noteq> img \<and>
            (\<forall>im. (snd (make_square P img sz mode h))[r := im] ! img = h ! img)"
    if r: "fst (make_square P img sz mode h) = Inr r" for r
  proof -
    from make_square_fresh[OF r] have f: "length h \<le> r" "r < length (snd (make_square P img sz mode h))"
      by simp_all
    then have ne: "r \<noteq> img" using assms by simp
    then show ?thesis using f a assms by simp
  qed
  from a b show ?thesis by blast
qed

theorem input_left_alone_witness:
  "(0::nat) < length [flat ''RGBA'' 2 1 [1, 2, 3, 255]] \<and>
   fst (make_square box_core 0 2 ''cover'' [flat ''RGBA'' 2 1 [1, 2, 3, 255]]) = Inr 3 \<and>
   snd (make_square box_core 0 2 ''cover'' [flat ''RGBA'' 2 1 [1, 2, 3, 255]]) ! 0 =
     flat ''RGBA'' 2 1 [1, 2, 3, 255] \<and>
   (snd (make_square box_core 0 2 ''cover'' [flat ''RGBA'' 2 1 [1, 2, 3, 255]]))
     [3 := flat ''L'' 1 1 [0]] ! 0 = flat ''RGBA'' 2 1 [1, 2, 3, 255]"
proof -
  have l: "(0::nat) < length [flat ''RGBA'' 2 1 [1, 2, 3, 255]]" by simp
  have r: "fst (make_square box_core 0 2 ''cover'' [flat ''RGBA'' 2 1 [1, 2, 3, 255]]) = Inr 3"
    by code_simp
  from input_left_alone[OF l, of box_core 2 "''cover''"] l r show ?thesis by simp
qed

text \<open>
  C10. Calling \<open>make_square\<close> a second time on the same image, size and mode, in the store
  the first call left behind, gives the same outcome: the same exception, or an image equal
  to the first one in mode, size and every pixel. (The pixel routines of \<open>pil_core\<close> are
  functions of the image they read.)
\<close>

theorem repeated_call_same_image:
  assumes "img < length h"
  shows "result (make_square P img sz mode (snd (make_square P img sz mode h))) =
         result (make_square P img sz mode h)"
proof -
  obtain ys where ys: "snd (make_square P img sz mode h) = h @ ys"
    using make_square_frame by blast
  have "snd (make_square P img sz mode h) ! img = h ! img"
    using assms by (simp add: ys nth_append)
  then show ?thesis by (rule make_square_reads_img)
qed

theorem repeated_call_same_image_witness:
  "(0::nat) < length [flat ''RGB'' 3 1 [5, 6, 7]] \<and>
   result (make_square box_core 0 2 ''contain''
     (snd (make_square box_core 0 2 ''contain'' [flat ''RGB'' 3 1 [5, 6, 7]]))) =
   result (make_square box_core 0 2 ''contain'' [flat ''RGB'' 3 1 [5, 6, 7]]) \<and>
   result (make_square box_core 0 2 ''contain'' [flat ''RGB'' 3 1 [5, 6, 7]]) =
     Inr \<lparr>imode = ''RGBA'', width = 2, height = 2,
          rows = [[[5, 6, 7, 255], [5, 6, 7, 255]], [[0, 0, 0, 0], [0, 0, 0, 0]]]\<rparr>"
proof -
  have l: "(0::nat) < length [flat ''RGB'' 3 1 [5, 6, 7]]" by simp
  have r: "result (make_square box_core 0 2 ''contain'' [flat ''RGB'' 3 1 [5, 6, 7]]) =
     Inr \<lparr>imode = ''RGBA'', width = 2, height = 2,
          rows = [[[5, 6, 7, 255], [5, 6, 7, 255]], [[0, 0, 0, 0], [0, 0, 0, 0]]]\<rparr>"
    by code_simp
  from repeated_call_same_image[OF l, of box_core 2 "''contain''"] l r show ?thesis by simp
qed

end
